theory Spec2Isabelle
  imports Complex_Main "HOL-Library.AList"
begin

section \<open>The runtime: observable calls, callbacks, promises and the event loop\<close>

text \<open>
  \<^verbatim>\<open>responseEnd.ts\<close> talks to four collaborators that are not part of it: the tracing
  handle (\<^verbatim>\<open>transaction.setHttpStatus\<close>, \<^verbatim>\<open>transaction.finish\<close>), the response's native
  \<^verbatim>\<open>end\<close>, the SDK's \<^verbatim>\<open>flush\<close> and \<^verbatim>\<open>logger.log\<close>, and Node's scheduler
  (\<^verbatim>\<open>setImmediate\<close>, promises). Every call on a collaborator is recorded, in order, in a
  trace; the scheduler is the queues of Node's event loop and a promise store.
\<close>

type_synonym Transaction = nat  \<comment> \<open>a tracing handle, by identity\<close>
type_synonym promise = nat      \<comment> \<open>a promise, by its index in the store\<close>
type_synonym thrown = string    \<comment> \<open>a thrown or rejected value\<close>

datatype 'a event =
    SetHttpStatus Transaction int  \<comment> \<open>\<^verbatim>\<open>transaction.setHttpStatus(code)\<close>\<close>
  | Finish Transaction             \<comment> \<open>\<^verbatim>\<open>transaction.finish()\<close>\<close>
  | OrigEnd "'a list"              \<comment> \<open>the response's native \<^verbatim>\<open>end\<close> ran with these arguments\<close>
  | Marker nat                     \<comment> \<open>some other callback of the application ran\<close>
  | Flush nat                      \<comment> \<open>\<^verbatim>\<open>flush(timeout)\<close>\<close>
  | Log string "thrown option"     \<comment> \<open>\<^verbatim>\<open>logger.log(message)\<close> or \<^verbatim>\<open>logger.log(message, e)\<close>\<close>

text \<open>
  The closures that the code hands to the scheduler. \<open>FinishCb transaction p\<close> is the arrow
  function \<^verbatim>\<open>() => { transaction.finish(); resolve(); }\<close> whose \<^verbatim>\<open>resolve\<close> settles promise
  \<open>p\<close>. \<open>AwaitCont p\<close> is what remains of \<^verbatim>\<open>finishTransaction\<close> after
  \<^verbatim>\<open>await transactionFinished\<close>: the function returns, which resolves its own promise \<open>p\<close>.
  \<open>MarkerCb n\<close> stands for a callback queued by anybody else, in whichever queue.
\<close>

datatype task =
    FinishCb Transaction promise
  | AwaitCont promise
  | MarkerCb nat

datatype pstate = Pending "task list" | Fulfilled

text \<open>
  The queues of the event loop. One iteration of the loop runs the timers phase, the poll
  phase and the check phase, in this order; after every callback the
  \<^verbatim>\<open>process.nextTick\<close> queue and then the promise jobs are run until both are empty.
\<close>

record ('a, 'w) state =
  world :: 'w                    \<comment> \<open>what the native \<^verbatim>\<open>end\<close> acts on (socket, buffers)\<close>
  trace :: "'a event list"
  ticks :: "task list"           \<comment> \<open>the \<^verbatim>\<open>process.nextTick\<close> queue\<close>
  microtasks :: "task list"      \<comment> \<open>the promise job queue\<close>
  timers :: "task list"          \<comment> \<open>\<^verbatim>\<open>setTimeout\<close> callbacks that are due (timers phase)\<close>
  io :: "task list"              \<comment> \<open>I/O callbacks that are ready (poll phase)\<close>
  outstanding :: "task list"     \<comment> \<open>the rest of the \<^verbatim>\<open>setImmediate\<close> batch that is running\<close>
  immediates :: "task list"      \<comment> \<open>the \<^verbatim>\<open>setImmediate\<close> queue (next check phase)\<close>
  promises :: "pstate list"

text \<open>The phase of the loop to which the running callback belongs. The main script runs
  before the first timers phase and is ordered like a timer callback.\<close>

datatype phase = Timers | Poll | Check

definition emit :: "'a event \<Rightarrow> ('a, 'w) state \<Rightarrow> ('a, 'w) state" where
  "emit e s = s\<lparr>trace := trace s @ [e]\<rparr>"

definition new_promise :: "('a, 'w) state \<Rightarrow> promise \<times> ('a, 'w) state" where
  "new_promise s = (length (promises s), s\<lparr>promises := promises s @ [Pending []]\<rparr>)"

text \<open>Resolving a pending promise queues its waiting continuations as microtasks, in order;
  resolving a settled one does nothing. A promise that is not in the store cannot be
  referred to by a program; the model leaves the state alone there.\<close>

definition resolve :: "promise \<Rightarrow> ('a, 'w) state \<Rightarrow> ('a, 'w) state" where
  "resolve p s =
     (if p < length (promises s) then
        (case promises s ! p of
           Pending ws \<Rightarrow> s\<lparr>microtasks := microtasks s @ ws,
                             promises := (promises s)[p := Fulfilled]\<rparr>
         | Fulfilled \<Rightarrow> s)
      else s)"

text \<open>\<^verbatim>\<open>await p\<close> with the rest of the function as \<open>k\<close>: the continuation waits on a
  pending promise and is queued as a microtask on a fulfilled one.\<close>

definition await :: "promise \<Rightarrow> task \<Rightarrow> ('a, 'w) state \<Rightarrow> ('a, 'w) state" where
  "await p k s =
     (if p < length (promises s) then
        (case promises s ! p of
           Pending ws \<Rightarrow> s\<lparr>promises := (promises s)[p := Pending (ws @ [k])]\<rparr>
         | Fulfilled \<Rightarrow> s\<lparr>microtasks := microtasks s @ [k]\<rparr>)
      else s)"

definition setImmediate :: "task \<Rightarrow> ('a, 'w) state \<Rightarrow> ('a, 'w) state" where
  "setImmediate cb s = s\<lparr>immediates := immediates s @ [cb]\<rparr>"

fun run_task :: "task \<Rightarrow> ('a, 'w) state \<Rightarrow> ('a, 'w) state" where
  "run_task (FinishCb transaction p) s = resolve p (emit (Finish transaction) s)"
| "run_task (AwaitCont p) s = resolve p s"
| "run_task (MarkerCb n) s = emit (Marker n) s"

fun waiting :: "pstate \<Rightarrow> nat" where
  "waiting (Pending ws) = length ws"
| "waiting Fulfilled = 0"

definition pending_work :: "('a, 'w) state \<Rightarrow> nat" where
  "pending_work s =
     length (ticks s) + length (microtasks s) + sum_list (map waiting (promises s))"

text \<open>When the running callback returns, the \<^verbatim>\<open>process.nextTick\<close> queue is emptied, then
  the promise jobs run first in, first out; a job queued by a job runs in the same drain.\<close>

function drain :: "('a, 'w) state \<Rightarrow> ('a, 'w) state" where
  "drain s =
     (case ticks s of
        k # ks \<Rightarrow> drain (run_task k (s\<lparr>ticks := ks\<rparr>))
      | [] \<Rightarrow>
          (case microtasks s of
             [] \<Rightarrow> s
           | k # ks \<Rightarrow> drain (run_task k (s\<lparr>microtasks := ks\<rparr>))))"
  by pat_completeness auto
termination
proof (relation "measure pending_work")
  show "wf (measure pending_work)" by simp
next
  have upd: "p < length ps \<Longrightarrow>
      sum_list (map waiting (ps[p := Fulfilled])) + waiting (ps ! p) = sum_list (map waiting ps)"
    for p ps
  proof (induction ps arbitrary: p)
    case Nil
    then show ?case by simp
  next
    case (Cons a ps)
    then show ?case by (cases p) auto
  qed
  have res: "pending_work (resolve p t) = pending_work t" for p and t :: "('a, 'w) state"
  proof (cases "p < length (promises t)")
    case False
    then show ?thesis by (simp add: resolve_def)
  next
    case True
    show ?thesis
    proof (cases "promises t ! p")
      case Fulfilled
      with True show ?thesis by (simp add: resolve_def)
    next
      case (Pending ws)
      with upd [OF True] True show ?thesis
        by (simp add: resolve_def pending_work_def)
    qed
  qed
  have run: "pending_work (run_task k t) = pending_work t" for k and t :: "('a, 'w) state"
    by (cases k) (simp_all add: res, simp_all add: pending_work_def emit_def)
  {
    fix s :: "('a, 'w) state" and k ks
    assume "ticks s = k # ks"
    then have "pending_work (s\<lparr>ticks := ks\<rparr>) < pending_work s"
      by (simp add: pending_work_def)
    then show "(run_task k (s\<lparr>ticks := ks\<rparr>), s) \<in> measure pending_work"
      by (simp add: run)
  next
    fix s :: "('a, 'w) state" and k ks
    assume "ticks s = []" and "microtasks s = k # ks"
    then have "pending_work (s\<lparr>microtasks := ks\<rparr>) < pending_work s"
      by (simp add: pending_work_def)
    then show "(run_task k (s\<lparr>microtasks := ks\<rparr>), s) \<in> measure pending_work"
      by (simp add: run)
  }
qed

text \<open>A phase runs the callbacks of its queue first in, first out, and drains after each of
  them. No callback of this model calls \<^verbatim>\<open>setTimeout\<close> or \<^verbatim>\<open>setImmediate\<close> or starts I/O,
  so the queue taken at the start of a phase is the whole of it.\<close>

fun run_callbacks :: "task list \<Rightarrow> ('a, 'w) state \<Rightarrow> ('a, 'w) state" where
  "run_callbacks [] s = s"
| "run_callbacks (cb # cbs) s = run_callbacks cbs (drain (run_task cb s))"

definition timers_phase :: "('a, 'w) state \<Rightarrow> ('a, 'w) state" where
  "timers_phase s = run_callbacks (timers s) (s\<lparr>timers := []\<rparr>)"

definition poll_phase :: "('a, 'w) state \<Rightarrow> ('a, 'w) state" where
  "poll_phase s = run_callbacks (io s) (s\<lparr>io := []\<rparr>)"

definition rest_of_batch :: "('a, 'w) state \<Rightarrow> ('a, 'w) state" where
  "rest_of_batch s = run_callbacks (outstanding s) (s\<lparr>outstanding := []\<rparr>)"

definition check_phase :: "('a, 'w) state \<Rightarrow> ('a, 'w) state" where
  "check_phase s = run_callbacks (immediates s) (s\<lparr>immediates := []\<rparr>)"

text \<open>
  The state in which the next check phase begins, once the callback that is running in
  phase \<open>ph\<close> has returned. From a timer callback: the other due timers, then the ready
  I/O. From an I/O callback: the other ready I/O; the timers phase comes only after the
  check phase, in the next iteration. From a \<^verbatim>\<open>setImmediate\<close> callback: the rest of the
  batch, then timers and I/O of the next iteration.
\<close>

definition until_check :: "phase \<Rightarrow> ('a, 'w) state \<Rightarrow> ('a, 'w) state" where
  "until_check ph s =
     (case ph of
        Timers \<Rightarrow> poll_phase (timers_phase (drain s))
      | Poll \<Rightarrow> poll_phase (drain s)
      | Check \<Rightarrow> poll_phase (timers_phase (rest_of_batch (drain s))))"

text \<open>What happens once the running callback has returned: the loop up to and through the
  next check phase and, from an I/O callback, the timers phase that follows it.\<close>

definition event_loop :: "phase \<Rightarrow> ('a, 'w) state \<Rightarrow> ('a, 'w) state" where
  "event_loop ph s =
     (case ph of
        Poll \<Rightarrow> timers_phase (check_phase (until_check ph s))
      | other \<Rightarrow> check_phase (until_check ph s))"

section \<open>\<^verbatim>\<open>responseEnd.ts\<close>\<close>

datatype 'r completion = Returns 'r | Throws thrown

text \<open>
  A function that can sit in \<^verbatim>\<open>res.end\<close>. \<open>Native code m\<close> is any function that is not
  \<^verbatim>\<open>sentryWrappedEnd\<close>: it acts on the world and returns or throws.
  \<open>SentryWrappedEnd transaction origEnd m\<close> is the closure built by \<^verbatim>\<open>wrapEndMethod\<close>, with
  the two variables it captures. The flag \<open>m\<close> says whether the function object carries a
  truthy \<^verbatim>\<open>__sentry_original__\<close> property. The captured transaction is declared a
  \<^verbatim>\<open>Transaction\<close>; the closure passes it to \<^verbatim>\<open>finishTransaction\<close>, which accepts
  \<^verbatim>\<open>undefined\<close>, so the model lets it be absent.
\<close>

datatype ('a, 'w, 'r) fn =
    Native "'a list \<Rightarrow> 'w \<Rightarrow> 'r completion \<times> 'w" (sentry_original: bool)
  | SentryWrappedEnd "Transaction option" "('a, 'w, 'r) fn" (sentry_original: bool)

record ('a, 'w, 'r) ServerResponse =
  statusCode :: int
  res_end :: "('a, 'w, 'r) fn"  \<comment> \<open>the property \<^verbatim>\<open>end\<close>\<close>

text \<open>
  \<^verbatim>\<open>finishTransaction\<close> is an async function: the call creates the promise it returns and
  runs the body up to the first \<^verbatim>\<open>await\<close>. With no transaction the body falls through and
  the promise is resolved at once. Otherwise the status is set, the executor of
  \<^verbatim>\<open>new Promise\<close> runs (it calls \<^verbatim>\<open>setImmediate\<close>), and the function suspends on
  \<^verbatim>\<open>transactionFinished\<close>.
\<close>

definition finishTransaction ::
  "Transaction option \<Rightarrow> ('a, 'w, 'r) ServerResponse \<Rightarrow> ('a, 'w) state \<Rightarrow> promise \<times> ('a, 'w) state"
where
  "finishTransaction transaction res s =
     (let (returned, s) = new_promise s in
      case transaction of
        None \<Rightarrow> (returned, resolve returned s)
      | Some t \<Rightarrow>
          (let s = emit (SetHttpStatus t (statusCode res)) s;
               (transactionFinished, s) = new_promise s;
               s = setImmediate (FinishCb t transactionFinished) s;
               s = await transactionFinished (AwaitCont returned) s
           in (returned, s)))"

text \<open>
  Calling a function with receiver \<open>this\<close> and arguments \<open>args\<close>. The second equation is
  \<^verbatim>\<open>sentryWrappedEnd\<close>: \<^verbatim>\<open>void finishTransaction(transaction, this)\<close> drops the promise, then
  \<^verbatim>\<open>return origEnd.call(this, ...args)\<close>.
\<close>

fun call_fn ::
  "('a, 'w, 'r) fn \<Rightarrow> ('a, 'w, 'r) ServerResponse \<Rightarrow> 'a list \<Rightarrow> ('a, 'w) state
     \<Rightarrow> 'r completion \<times> ('a, 'w) state"
where
  "call_fn (Native code m) this args s =
     (let (r, w) = code args (world s) in (r, emit (OrigEnd args) (s\<lparr>world := w\<rparr>)))"
| "call_fn (SentryWrappedEnd transaction origEnd m) this args s =
     (let (dropped, s) = finishTransaction transaction this s
      in call_fn origEnd this args s)"

definition wrapEndMethod :: "Transaction option \<Rightarrow> ('a, 'w, 'r) fn \<Rightarrow> ('a, 'w, 'r) fn" where
  "wrapEndMethod transaction origEnd = SentryWrappedEnd transaction origEnd False"

text \<open>
  Modelled from the spec: \<^verbatim>\<open>fill\<close> of \<^verbatim>\<open>@sentry/utils\<close> is not among the sources. The
  spec's wrap operation ``replaces the finish operation with a new function'' and ``sets
  the Wrap Marker on the replacement''; the marker is the property that the guard of
  \<^verbatim>\<open>autoEndTransactionOnResponseEnd\<close> reads. \<open>setWrapMarker\<close> is the second half of it.
\<close>

fun setWrapMarker :: "('a, 'w, 'r) fn \<Rightarrow> ('a, 'w, 'r) fn" where
  "setWrapMarker (Native code m) = Native code True"
| "setWrapMarker (SentryWrappedEnd transaction origEnd m) =
     SentryWrappedEnd transaction origEnd True"

definition fill ::
  "('a, 'w, 'r) ServerResponse \<Rightarrow> (('a, 'w, 'r) fn \<Rightarrow> ('a, 'w, 'r) fn) \<Rightarrow> ('a, 'w, 'r) ServerResponse"
where
  "fill res replacementFactory =
     res\<lparr>res_end := setWrapMarker (replacementFactory (res_end res))\<rparr>"

definition autoEndTransactionOnResponseEnd ::
  "Transaction option \<Rightarrow> ('a, 'w, 'r) ServerResponse \<Rightarrow> ('a, 'w, 'r) ServerResponse"
where
  "autoEndTransactionOnResponseEnd transaction res =
     (if \<not> sentry_original (res_end res) then fill res (wrapEndMethod transaction) else res)"

subsection \<open>\<^verbatim>\<open>flushQueue\<close>\<close>

text \<open>
  A statement of an async function body, run to its end: the calls it made and how it
  completed. \<^verbatim>\<open>flush\<close> is a parameter: given the timeout it throws, or returns a promise
  that resolves or rejects. \<^verbatim>\<open>logger.log\<close> records its message and returns.
\<close>

type_synonym ('a, 'x) comp = "'a event list \<times> 'x completion"

datatype flush_behaviour = FlushResolves bool | FlushRejects thrown | FlushThrows thrown

datatype outcome = Resolved | Rejected thrown

definition seq :: "('a, 'x) comp \<Rightarrow> ('a, 'y) comp \<Rightarrow> ('a, 'y) comp" where
  "seq c d =
     (case c of
        (tr, Throws e) \<Rightarrow> (tr, Throws e)
      | (tr, Returns v) \<Rightarrow> (case d of (tr', r) \<Rightarrow> (tr @ tr', r)))"

definition try_catch :: "('a, 'x) comp \<Rightarrow> (thrown \<Rightarrow> ('a, 'x) comp) \<Rightarrow> ('a, 'x) comp" where
  "try_catch body handler =
     (case body of
        (tr, Returns v) \<Rightarrow> (tr, Returns v)
      | (tr, Throws e) \<Rightarrow> (case handler e of (tr', r) \<Rightarrow> (tr @ tr', r)))"

definition debug_log :: "bool \<Rightarrow> string \<Rightarrow> thrown option \<Rightarrow> ('a, unit) comp" where
  "debug_log DEBUG_BUILD message detail =
     (if DEBUG_BUILD then [Log message detail] else [], Returns ())"

definition await_flush :: "(nat \<Rightarrow> flush_behaviour) \<Rightarrow> nat \<Rightarrow> ('a, unit) comp" where
  "await_flush flush timeout =
     ([Flush timeout],
      case flush timeout of
        FlushResolves sent \<Rightarrow> Returns ()
      | FlushRejects e \<Rightarrow> Throws e
      | FlushThrows e \<Rightarrow> Throws e)"

definition async_fn :: "('a, unit) comp \<Rightarrow> 'a event list \<times> outcome" where
  "async_fn body =
     (case body of
        (tr, Returns v) \<Rightarrow> (tr, Resolved)
      | (tr, Throws e) \<Rightarrow> (tr, Rejected e))"

definition flushQueue :: "bool \<Rightarrow> (nat \<Rightarrow> flush_behaviour) \<Rightarrow> 'a event list \<times> outcome" where
  "flushQueue DEBUG_BUILD flush =
     async_fn
       (try_catch
          (seq (debug_log DEBUG_BUILD ''Flushing events...'' None)
            (seq (await_flush flush 2000)
              (debug_log DEBUG_BUILD ''Done flushing events'' None)))
          (\<lambda>e. debug_log DEBUG_BUILD (''Error while flushing events:'' @ [CHR 0x0A]) (Some e)))"

section \<open>\<^verbatim>\<open>use-ts-3_8.js\<close>\<close>

text \<open>
  The script loads \<^verbatim>\<open>packages/typescript/tsconfig.json\<close> with \<^verbatim>\<open>require\<close>, which parses
  the file as JSON, deletes one property and writes \<^verbatim>\<open>JSON.stringify(tsConfig, null, 2)\<close>
  back. A loaded value is a tree; an object keeps its members in order. A number is a
  double: a literal too large for one loads as an infinity, and \<^verbatim>\<open>-0\<close> loads as negative
  zero.
\<close>

datatype number =
    Finite rat   \<comment> \<open>a finite value other than negative zero\<close>
  | NegZero
  | Infinity
  | NegInfinity

datatype json =
    JNull
  | JBool bool
  | JNum number
  | JStr string
  | JArr "json list"
  | JObj "(string \<times> json) list"

datatype js_error = TypeError

text \<open>
  \<^verbatim>\<open>delete tsConfig.compilerOptions.noUncheckedIndexedAccess\<close>. Reading
  \<^verbatim>\<open>compilerOptions\<close> from \<^verbatim>\<open>null\<close> throws; from an array or a primitive it gives
  \<^verbatim>\<open>undefined\<close>, as from an object without that member, and deleting a property of
  \<^verbatim>\<open>undefined\<close> or \<^verbatim>\<open>null\<close> throws. Deleting from an object removes the member in place;
  deleting from an array or a primitive changes nothing.
\<close>

definition delete_option :: "json \<Rightarrow> js_error + json" where
  "delete_option tsConfig =
     (case tsConfig of
        JObj members \<Rightarrow>
          (case map_of members ''compilerOptions'' of
             None \<Rightarrow> Inl TypeError
           | Some JNull \<Rightarrow> Inl TypeError
           | Some (JObj options) \<Rightarrow>
               Inr (JObj (AList.update ''compilerOptions''
                            (JObj (AList.delete ''noUncheckedIndexedAccess'' options)) members))
           | Some other \<Rightarrow> Inr tsConfig)
      | other \<Rightarrow> Inl TypeError)"

text \<open>
  \<^verbatim>\<open>JSON.stringify(value, null, 2)\<close>, given by the value that the text it returns denotes:
  an infinity is written as \<^verbatim>\<open>null\<close> and negative zero as \<^verbatim>\<open>0\<close>; everything else is
  written as it is, member by member and element by element.
\<close>

primrec JSON_stringify :: "json \<Rightarrow> json" where
  "JSON_stringify JNull = JNull"
| "JSON_stringify (JBool b) = JBool b"
| "JSON_stringify (JNum n) =
     (case n of
        Finite q \<Rightarrow> JNum (Finite q)
      | NegZero \<Rightarrow> JNum (Finite 0)
      | Infinity \<Rightarrow> JNull
      | NegInfinity \<Rightarrow> JNull)"
| "JSON_stringify (JStr s) = JStr s"
| "JSON_stringify (JArr elements) = JArr (map JSON_stringify elements)"
| "JSON_stringify (JObj members) = JObj (map (map_prod id JSON_stringify) members)"

text \<open>The script from the loaded configuration on: the content of the file it writes, or the
  error that ends it before it writes.\<close>

definition use_ts_3_8 :: "json \<Rightarrow> js_error + json" where
  "use_ts_3_8 tsConfig =
     (case delete_option tsConfig of
        Inl e \<Rightarrow> Inl e
      | Inr deleted \<Rightarrow> Inr (JSON_stringify deleted))"

section \<open>Vocabulary of the properties\<close>

fun is_flush :: "'a event \<Rightarrow> bool" where
  "is_flush (Flush n) = True"
| "is_flush e = False"

fun is_log :: "'a event \<Rightarrow> bool" where
  "is_log (Log message detail) = True"
| "is_log e = False"

text \<open>The call that \<^verbatim>\<open>finishTransaction\<close> makes before it suspends.\<close>

definition status_call ::
  "Transaction option \<Rightarrow> ('a, 'w, 'r) ServerResponse \<Rightarrow> 'a event list"
where
  "status_call transaction this =
     (case transaction of None \<Rightarrow> [] | Some t \<Rightarrow> [SetHttpStatus t (statusCode this)])"

text \<open>What a call of a function records before it returns, and the native code at its core.\<close>

fun sync_events ::
  "('a, 'w, 'r) fn \<Rightarrow> ('a, 'w, 'r) ServerResponse \<Rightarrow> 'a list \<Rightarrow> 'a event list"
where
  "sync_events (Native code m) this args = [OrigEnd args]"
| "sync_events (SentryWrappedEnd transaction origEnd m) this args =
     status_call transaction this @ sync_events origEnd this args"

fun innermost :: "('a, 'w, 'r) fn \<Rightarrow> 'a list \<Rightarrow> 'w \<Rightarrow> 'r completion \<times> 'w" where
  "innermost (Native code m) = code"
| "innermost (SentryWrappedEnd transaction origEnd m) = innermost origEnd"

text \<open>
  A state is well formed when every queued or waiting callback refers to a promise that
  exists. \<open>below n s\<close> says that nothing that can run in a drain of \<open>s\<close> reaches a promise
  numbered \<open>n\<close> or more; \<open>calm n s\<close> says the same of the phases before the check phase.
\<close>

fun refers_below :: "nat \<Rightarrow> task \<Rightarrow> bool" where
  "refers_below n (FinishCb transaction p) = (p < n)"
| "refers_below n (AwaitCont p) = (p < n)"
| "refers_below n (MarkerCb m) = True"

fun waiters_below :: "nat \<Rightarrow> pstate \<Rightarrow> bool" where
  "waiters_below n (Pending ws) = list_all (refers_below n) ws"
| "waiters_below n Fulfilled = True"

definition wf_state :: "('a, 'w) state \<Rightarrow> bool" where
  "wf_state s =
     (list_all (refers_below (length (promises s)))
        (ticks s @ microtasks s @ timers s @ io s @ outstanding s @ immediates s)
      \<and> list_all (waiters_below (length (promises s))) (promises s))"

definition below :: "nat \<Rightarrow> ('a, 'w) state \<Rightarrow> bool" where
  "below n s =
     (list_all (refers_below n) (ticks s @ microtasks s)
      \<and> list_all (waiters_below n) (take n (promises s)))"

definition calm :: "nat \<Rightarrow> ('a, 'w) state \<Rightarrow> bool" where
  "calm n s = (below n s \<and> list_all (refers_below n) (timers s @ io s @ outstanding s))"

definition quiet :: "('a, 'w) state \<Rightarrow> bool" where
  "quiet s = (ticks s = [] \<and> microtasks s = [])"

text \<open>\<open>runs_to n s s'\<close>: from \<open>s\<close> to \<open>s'\<close> callbacks have run that leave the
  \<^verbatim>\<open>setImmediate\<close> queue and the promises from \<open>n\<close> on alone and only add to the trace.\<close>

definition runs_to :: "nat \<Rightarrow> ('a, 'w) state \<Rightarrow> ('a, 'w) state \<Rightarrow> bool" where
  "runs_to n s s' =
     (calm n s' \<and> drop n (promises s') = drop n (promises s)
      \<and> immediates s' = immediates s \<and> world s' = world s
      \<and> take (length (trace s)) (trace s') = trace s)"

text \<open>A value all of whose numbers are finite and not negative zero.\<close>

fun plain :: "json \<Rightarrow> bool" where
  "plain (JNum n) = (case n of Finite q \<Rightarrow> True | other \<Rightarrow> False)"
| "plain (JArr elements) = list_all plain elements"
| "plain (JObj members) = list_all (\<lambda>m. plain (snd m)) members"
| "plain other = True"

fun keys :: "json \<Rightarrow> string list" where
  "keys (JObj members) = map fst members"
| "keys other = []"

fun member :: "json \<Rightarrow> string \<Rightarrow> json option" where
  "member (JObj members) k = map_of members k"
| "member other k = None"

fun is_object :: "json \<Rightarrow> bool" where
  "is_object (JObj members) = True"
| "is_object other = False"

subsection \<open>Concrete inputs\<close>

definition native_end :: "string list \<Rightarrow> nat \<Rightarrow> bool completion \<times> nat" where
  "native_end args w = (Returns True, Suc w)"

definition response :: "int \<Rightarrow> (string, nat, bool) ServerResponse" where
  "response code = \<lparr>statusCode = code, res_end = Native native_end False\<rparr>"

definition idle :: "(string, nat) state" where
  "idle = \<lparr>world = 0, trace = [], ticks = [], microtasks = [], timers = [], io = [],
            outstanding = [], immediates = [], promises = []\<rparr>"

text \<open>An I/O callback is running; the application has already queued a
  \<^verbatim>\<open>process.nextTick\<close> callback, a promise job, another I/O callback and a
  \<^verbatim>\<open>setImmediate\<close> callback.\<close>

definition busy :: "(string, nat) state" where
  "busy = \<lparr>world = 0, trace = [], ticks = [MarkerCb 2], microtasks = [MarkerCb 3],
            timers = [], io = [MarkerCb 5], outstanding = [], immediates = [MarkerCb 7],
            promises = []\<rparr>"

text \<open>An I/O callback is running and a timer callback is already queued and due.\<close>

definition timer_due :: "(string, nat) state" where
  "timer_due = \<lparr>world = 0, trace = [], ticks = [], microtasks = [], timers = [MarkerCb 9],
                 io = [], outstanding = [], immediates = [], promises = []\<rparr>"

definition tsconfig :: json where
  "tsconfig =
     JObj [(''extends'', JStr ''./tsconfig.base.json''),
           (''compilerOptions'',
            JObj [(''strict'', JBool True),
                  (''noUncheckedIndexedAccess'', JBool True),
                  (''target'', JStr ''es2017'')]),
           (''include'', JArr [JStr ''src''])]"

definition tsconfig_written :: json where
  "tsconfig_written =
     JObj [(''extends'', JStr ''./tsconfig.base.json''),
           (''compilerOptions'',
            JObj [(''strict'', JBool True),
                  (''target'', JStr ''es2017'')]),
           (''include'', JArr [JStr ''src''])]"

text \<open>A configuration with a number too large for a double, as \<^verbatim>\<open>1e309\<close> loads.\<close>

definition tsconfig_overflow :: json where
  "tsconfig_overflow =
     JObj [(''compilerOptions'', JObj [(''noUncheckedIndexedAccess'', JBool True)]),
           (''limit'', JNum Infinity)]"

section \<open>The scheduler: what running callbacks can and cannot touch\<close>

declare drain.simps [simp del]

lemma drain_empty: "ticks s = [] \<Longrightarrow> microtasks s = [] \<Longrightarrow> drain s = s"
  by (simp add: drain.simps [of s])

lemma drain_tick:
  "ticks s = k # ks \<Longrightarrow> drain s = drain (run_task k (s\<lparr>ticks := ks\<rparr>))"
  by (simp add: drain.simps [of s])

lemma drain_step:
  "ticks s = [] \<Longrightarrow> microtasks s = k # ks \<Longrightarrow>
   drain s = drain (run_task k (s\<lparr>microtasks := ks\<rparr>))"
  by (simp add: drain.simps [of s])

lemma list_all_update: "list_all P xs \<Longrightarrow> P y \<Longrightarrow> list_all P (xs[i := y])"
  by (induction xs arbitrary: i) (auto split: nat.splits)

lemma emit_fields [simp]:
  "world (emit e s) = world s" "trace (emit e s) = trace s @ [e]"
  "ticks (emit e s) = ticks s" "microtasks (emit e s) = microtasks s"
  "timers (emit e s) = timers s" "io (emit e s) = io s"
  "outstanding (emit e s) = outstanding s" "immediates (emit e s) = immediates s"
  "promises (emit e s) = promises s"
  by (simp_all add: emit_def)

lemma resolve_frame [simp]:
  "world (resolve p s) = world s" "trace (resolve p s) = trace s"
  "ticks (resolve p s) = ticks s" "timers (resolve p s) = timers s" "io (resolve p s) = io s"
  "outstanding (resolve p s) = outstanding s" "immediates (resolve p s) = immediates s"
  "length (promises (resolve p s)) = length (promises s)"
  by (simp_all add: resolve_def split: pstate.splits)

lemma run_task_frame [simp]:
  "world (run_task k s) = world s" "ticks (run_task k s) = ticks s"
  "timers (run_task k s) = timers s" "io (run_task k s) = io s"
  "outstanding (run_task k s) = outstanding s" "immediates (run_task k s) = immediates s"
  "length (promises (run_task k s)) = length (promises s)"
  by (cases k; simp)+

lemma run_task_trace: "take (length (trace s)) (trace (run_task k s)) = trace s"
  by (cases k) simp_all

lemma below_emit [simp]: "below n (emit e s) = below n s"
  by (simp add: below_def)

text \<open>Resolving a promise below the bound wakes only callbacks that stay below it, and
  leaves every promise from the bound on as it was.\<close>

lemma resolve_below:
  assumes "p < n" and "below n s"
  shows "below n (resolve p s)" and "drop n (promises (resolve p s)) = drop n (promises s)"
proof -
  show "drop n (promises (resolve p s)) = drop n (promises s)"
    using assms(1) by (simp add: resolve_def split: pstate.splits)
  show "below n (resolve p s)"
  proof (cases "p < length (promises s)")
    case False
    with assms(2) show ?thesis by (simp add: resolve_def)
  next
    case True
    show ?thesis
    proof (cases "promises s ! p")
      case Fulfilled
      with True assms(2) show ?thesis by (simp add: resolve_def)
    next
      case (Pending ws)
      from True assms(1) have "take n (promises s) ! p = Pending ws"
        using Pending by simp
      moreover from True assms(1) have "p < length (take n (promises s))" by simp
      ultimately have "waiters_below n (Pending ws)"
        using assms(2) unfolding below_def list_all_length by metis
      then have ws: "list_all (refers_below n) ws" by simp
      have "list_all (waiters_below n) ((take n (promises s))[p := Fulfilled])"
        using assms(2) by (simp add: below_def list_all_update)
      with ws assms(2) True Pending show ?thesis
        by (simp add: resolve_def below_def take_update_swap)
    qed
  qed
qed

lemma run_task_below:
  assumes "refers_below n k" and "below n s"
  shows "below n (run_task k s)" and "drop n (promises (run_task k s)) = drop n (promises s)"
  using assms by (cases k; simp add: resolve_below)+

lemma runs_to_refl: "calm n s \<Longrightarrow> runs_to n s s"
  by (simp add: runs_to_def)

lemma runs_to_trans: "runs_to n s s' \<Longrightarrow> runs_to n s' s'' \<Longrightarrow> runs_to n s s''"
proof -
  assume a: "runs_to n s s'" and b: "runs_to n s' s''"
  from a have "length (trace s) \<le> length (trace s')"
    unfolding runs_to_def by (metis length_take min.cobounded1)
  then have "take (length (trace s)) (trace s'') =
      take (length (trace s)) (take (length (trace s')) (trace s''))"
    by (simp add: min_def)
  with a b show ?thesis
    by (simp add: runs_to_def)
qed

lemma run_task_later:
  assumes "refers_below n k" and "calm n s"
  shows "runs_to n s (run_task k s)"
  using assms run_task_below [of n k s]
  by (simp add: runs_to_def calm_def run_task_trace)

lemma drain_later: "calm n s \<Longrightarrow> runs_to n s (drain s) \<and> quiet (drain s)"
proof (induction s rule: drain.induct)
  case (1 s)
  show ?case
  proof (cases "ticks s")
    case (Cons k ks)
    let ?s' = "s\<lparr>ticks := ks\<rparr>"
    from "1.prems" Cons have k: "refers_below n k" and c: "calm n ?s'"
      by (simp_all add: calm_def below_def)
    from c have "runs_to n s ?s'" using Cons by (simp add: runs_to_def)
    with run_task_later [OF k c] "1.IH"(2) [OF Cons]
    show ?thesis
      unfolding drain_tick [OF Cons]
      by (meson runs_to_def runs_to_trans)
  next
    case Nil
    show ?thesis
    proof (cases "microtasks s")
      case Nil': Nil
      with Nil "1.prems" show ?thesis
        by (simp add: drain_empty runs_to_refl quiet_def)
    next
      case (Cons k ks)
      let ?s' = "s\<lparr>microtasks := ks\<rparr>"
      from "1.prems" Cons have k: "refers_below n k" and c: "calm n ?s'"
        by (simp_all add: calm_def below_def)
      from c have "runs_to n s ?s'" using Cons by (simp add: runs_to_def)
      with run_task_later [OF k c] "1.IH"(1) [OF Nil Cons]
      show ?thesis
        unfolding drain_step [OF Nil Cons]
        by (meson runs_to_def runs_to_trans)
    qed
  qed
qed

lemma run_callbacks_append:
  "run_callbacks (q @ q') s = run_callbacks q' (run_callbacks q s)"
  by (induction q arbitrary: s) simp_all

lemma run_callbacks_later:
  "list_all (refers_below n) q \<Longrightarrow> calm n s \<Longrightarrow> quiet s \<Longrightarrow>
   runs_to n s (run_callbacks q s) \<and> quiet (run_callbacks q s)"
proof (induction q arbitrary: s)
  case Nil
  then show ?case by (simp add: runs_to_refl)
next
  case (Cons k q)
  from Cons.prems have k: "refers_below n k" and q: "list_all (refers_below n) q"
    by simp_all
  let ?s' = "drain (run_task k s)"
  from run_task_later [OF k Cons.prems(2)] have a: "runs_to n s (run_task k s)" .
  then have "calm n (run_task k s)" by (simp add: runs_to_def)
  from drain_later [OF this] have b: "runs_to n (run_task k s) ?s'" and qu: "quiet ?s'"
    by simp_all
  from b have c: "calm n ?s'" by (simp add: runs_to_def)
  from Cons.IH [OF q c qu] runs_to_trans [OF a b] show ?case
    by (auto intro: runs_to_trans)
qed

lemma calm_queue_update [simp]:
  "calm n s \<Longrightarrow> calm n (s\<lparr>timers := []\<rparr>)"
  "calm n s \<Longrightarrow> calm n (s\<lparr>io := []\<rparr>)"
  "calm n s \<Longrightarrow> calm n (s\<lparr>outstanding := []\<rparr>)"
  "calm n (s\<lparr>immediates := q\<rparr>) = calm n s"
  by (simp_all add: calm_def below_def)

lemma quiet_queue_update [simp]:
  "quiet (s\<lparr>timers := q\<rparr>) = quiet s" "quiet (s\<lparr>io := q\<rparr>) = quiet s"
  "quiet (s\<lparr>outstanding := q\<rparr>) = quiet s" "quiet (s\<lparr>immediates := q\<rparr>) = quiet s"
  by (simp_all add: quiet_def)

lemma phases_later:
  assumes "calm n s" and "quiet s"
  shows "runs_to n s (timers_phase s) \<and> quiet (timers_phase s)"
    and "runs_to n s (poll_phase s) \<and> quiet (poll_phase s)"
    and "runs_to n s (rest_of_batch s) \<and> quiet (rest_of_batch s)"
proof -
  from assms(1) have t: "list_all (refers_below n) (timers s)"
    and i: "list_all (refers_below n) (io s)" and o: "list_all (refers_below n) (outstanding s)"
    by (simp_all add: calm_def)
  have "runs_to n s (s\<lparr>timers := []\<rparr>)" "runs_to n s (s\<lparr>io := []\<rparr>)"
    "runs_to n s (s\<lparr>outstanding := []\<rparr>)"
    using assms(1) by (simp_all add: runs_to_def)
  with run_callbacks_later [OF t, of "s\<lparr>timers := []\<rparr>"]
    run_callbacks_later [OF i, of "s\<lparr>io := []\<rparr>"]
    run_callbacks_later [OF o, of "s\<lparr>outstanding := []\<rparr>"] assms
  show "runs_to n s (timers_phase s) \<and> quiet (timers_phase s)"
    and "runs_to n s (poll_phase s) \<and> quiet (poll_phase s)"
    and "runs_to n s (rest_of_batch s) \<and> quiet (rest_of_batch s)"
    by (auto simp: timers_phase_def poll_phase_def rest_of_batch_def intro: runs_to_trans)
qed

lemma until_check_later:
  assumes "calm n s"
  shows "runs_to n s (until_check ph s) \<and> quiet (until_check ph s)"
proof -
  from drain_later [OF assms] have d: "runs_to n s (drain s)" "quiet (drain s)" by simp_all
  then have cd: "calm n (drain s)" by (simp add: runs_to_def)
  show ?thesis
  proof (cases ph)
    case Poll
    with phases_later(2) [OF cd d(2)] d(1) show ?thesis
      by (auto simp: until_check_def intro: runs_to_trans)
  next
    case Timers
    from phases_later(1) [OF cd d(2)] have t: "runs_to n (drain s) (timers_phase (drain s))"
      "quiet (timers_phase (drain s))" by simp_all
    then have "calm n (timers_phase (drain s))" by (simp add: runs_to_def)
    from phases_later(2) [OF this t(2)] t(1) d(1) Timers show ?thesis
      by (auto simp: until_check_def intro: runs_to_trans)
  next
    case Check
    from phases_later(3) [OF cd d(2)] have r: "runs_to n (drain s) (rest_of_batch (drain s))"
      "quiet (rest_of_batch (drain s))" by simp_all
    then have cr: "calm n (rest_of_batch (drain s))" by (simp add: runs_to_def)
    from phases_later(1) [OF cr r(2)]
    have t: "runs_to n (rest_of_batch (drain s)) (timers_phase (rest_of_batch (drain s)))"
      "quiet (timers_phase (rest_of_batch (drain s)))" by simp_all
    then have "calm n (timers_phase (rest_of_batch (drain s)))" by (simp add: runs_to_def)
    from phases_later(2) [OF this t(2)] t(1) r(1) d(1) Check show ?thesis
      by (auto simp: until_check_def intro: runs_to_trans)
  qed
qed

lemma timers_drain: "timers (drain s) = timers s"
proof (induction s rule: drain.induct)
  case (1 s)
  show ?case
  proof (cases "ticks s")
    case (Cons k ks)
    with "1.IH"(2) [OF Cons] show ?thesis by (simp add: drain_tick [OF Cons])
  next
    case Nil
    show ?thesis
    proof (cases "microtasks s")
      case Nil': Nil
      with Nil show ?thesis by (simp add: drain_empty)
    next
      case (Cons k ks)
      with "1.IH"(1) [OF Nil Cons] show ?thesis by (simp add: drain_step [OF Nil Cons])
    qed
  qed
qed

lemma timers_run_callbacks: "timers (run_callbacks q s) = timers s"
  by (induction q arbitrary: s) (simp_all add: timers_drain)

section \<open>\<^verbatim>\<open>finishTransaction\<close>\<close>

lemma finishTransaction_present:
  "finishTransaction (Some t) res s =
     (length (promises s),
      s\<lparr>trace := trace s @ [SetHttpStatus t (statusCode res)],
        immediates := immediates s @ [FinishCb t (Suc (length (promises s)))],
        promises := promises s @ [Pending [], Pending [AwaitCont (length (promises s))]]\<rparr>)"
  by (simp add: finishTransaction_def new_promise_def emit_def setImmediate_def await_def
      nth_append list_update_append)

lemma finishTransaction_absent:
  "finishTransaction None res s =
     (length (promises s), s\<lparr>promises := promises s @ [Fulfilled]\<rparr>)"
  by (simp add: finishTransaction_def new_promise_def resolve_def)

lemma finishTransaction_frame:
  "world (snd (finishTransaction transaction res s)) = world s"
  "trace (snd (finishTransaction transaction res s)) = trace s @ status_call transaction res"
  "microtasks (snd (finishTransaction transaction res s)) = microtasks s"
  "take (length (promises s)) (promises (snd (finishTransaction transaction res s))) = promises s"
  "length (promises s) \<le> length (promises (snd (finishTransaction transaction res s)))"
  "\<exists>q. immediates (snd (finishTransaction transaction res s)) = immediates s @ q"
  by (cases transaction;
      simp add: finishTransaction_present finishTransaction_absent status_call_def)+

text \<open>The deferred callback, run in a state \<open>b\<close> whose drain is done and in which the two
  promises of the call are as the call left them.\<close>

lemma promise_slots:
  assumes "drop P (promises b) = [Pending [], Pending [AwaitCont P]]"
  shows "length (promises b) = Suc (Suc P)"
    and "promises b ! P = Pending []"
    and "promises b ! Suc P = Pending [AwaitCont P]"
proof -
  from assms have "length (drop P (promises b)) = 2" by simp
  then show len: "length (promises b) = Suc (Suc P)" by simp
  have "drop P (promises b) = promises b ! P # drop (Suc P) (promises b)"
    by (rule Cons_nth_drop_Suc [symmetric]) (simp add: len)
  moreover have "drop (Suc P) (promises b) = promises b ! Suc P # drop (Suc (Suc P)) (promises b)"
    by (rule Cons_nth_drop_Suc [symmetric]) (simp add: len)
  ultimately have "drop P (promises b) =
      promises b ! P # promises b ! Suc P # drop (Suc (Suc P)) (promises b)"
    by simp
  with assms show "promises b ! P = Pending []"
    and "promises b ! Suc P = Pending [AwaitCont P]"
    by simp_all
qed

lemma finish_callback_runs:
  assumes q: "quiet b"
    and p: "drop P (promises b) = [Pending [], Pending [AwaitCont P]]"
  shows "run_task (FinishCb t (Suc P)) b =
           b\<lparr>trace := trace b @ [Finish t], microtasks := [AwaitCont P],
             promises := (promises b)[Suc P := Fulfilled]\<rparr>"
    and "drain (run_task (FinishCb t (Suc P)) b) =
           b\<lparr>trace := trace b @ [Finish t], microtasks := [],
             promises := (promises b)[Suc P := Fulfilled, P := Fulfilled]\<rparr>"
proof -
  note ps = promise_slots [OF p]
  define d where "d = run_task (FinishCb t (Suc P)) b"
  have d: "d = b\<lparr>trace := trace b @ [Finish t], microtasks := [AwaitCont P],
                      promises := (promises b)[Suc P := Fulfilled]\<rparr>"
    using ps q by (simp add: d_def resolve_def emit_def quiet_def)
  then show "run_task (FinishCb t (Suc P)) b =
           b\<lparr>trace := trace b @ [Finish t], microtasks := [AwaitCont P],
             promises := (promises b)[Suc P := Fulfilled]\<rparr>"
    by (simp only: d_def)
  have "drain d = drain (run_task (AwaitCont P) (d\<lparr>microtasks := []\<rparr>))"
    using q by (intro drain_step) (simp_all add: d quiet_def)
  also have "run_task (AwaitCont P) (d\<lparr>microtasks := []\<rparr>) =
      b\<lparr>trace := trace b @ [Finish t], microtasks := [],
        promises := (promises b)[Suc P := Fulfilled, P := Fulfilled]\<rparr>"
    using ps by (simp add: d resolve_def)
  also have "drain \<dots> = \<dots>"
    using q by (intro drain_empty) (simp_all add: quiet_def)
  finally show "drain (run_task (FinishCb t (Suc P)) b) =
           b\<lparr>trace := trace b @ [Finish t], microtasks := [],
             promises := (promises b)[Suc P := Fulfilled, P := Fulfilled]\<rparr>"
    by (simp only: d_def)
qed

text \<open>Everything that runs before the check phase, and every \<^verbatim>\<open>setImmediate\<close> callback
  that was queued when \<^verbatim>\<open>finishTransaction\<close> was called, runs to the end of its drain
  before the deferred callback; none of it can reach the two promises of the call. What
  runs after the check phase cannot reach them either.\<close>

lemma queued_first:
  fixes s :: "('a, 'w) state" and t :: Transaction and res :: "('a, 'w, 'r) ServerResponse"
    and ph :: phase
  assumes wf: "wf_state s"
  defines "s1 \<equiv> snd (finishTransaction (Some t) res s)"
  defines "b \<equiv> run_callbacks (immediates s) ((until_check ph s1)\<lparr>immediates := []\<rparr>)"
  shows "quiet b"
    and "drop (length (promises s)) (promises b) =
           [Pending [], Pending [AwaitCont (length (promises s))]]"
    and "\<exists>mid. trace b = trace s @ [SetHttpStatus t (statusCode res)] @ mid"
    and "check_phase (until_check ph s1) =
           drain (run_task (FinishCb t (Suc (length (promises s)))) b)"
    and "calm (length (promises s)) b"
proof -
  let ?P = "length (promises s)"
  have s1: "s1 = s\<lparr>trace := trace s @ [SetHttpStatus t (statusCode res)],
        immediates := immediates s @ [FinishCb t (Suc ?P)],
        promises := promises s @ [Pending [], Pending [AwaitCont ?P]]\<rparr>"
    by (simp add: s1_def finishTransaction_present)
  from wf have "calm ?P s1"
    by (simp add: s1 calm_def below_def wf_state_def)
  from until_check_later [OF this, of ph]
  have u: "runs_to ?P s1 (until_check ph s1)" and uq: "quiet (until_check ph s1)"
    by simp_all
  let ?u = "(until_check ph s1)\<lparr>immediates := []\<rparr>"
  from u have cu: "calm ?P ?u" and uu: "runs_to ?P (s1\<lparr>immediates := []\<rparr>) ?u"
    by (simp_all add: runs_to_def)
  from wf have q: "list_all (refers_below ?P) (immediates s)"
    by (simp add: wf_state_def)
  from run_callbacks_later [OF q cu] uq
  have l: "runs_to ?P ?u b" and bq: "quiet b"
    by (simp_all add: b_def)
  show "quiet b" by (rule bq)
  from l show "calm ?P b" by (simp add: runs_to_def)
  from runs_to_trans [OF uu l] have sb: "runs_to ?P (s1\<lparr>immediates := []\<rparr>) b" .
  then show "drop ?P (promises b) = [Pending [], Pending [AwaitCont ?P]]"
    by (simp add: runs_to_def s1)
  from sb have "take (length (trace s1)) (trace b) = trace s1"
    by (simp add: runs_to_def)
  then have "trace b = trace s1 @ drop (length (trace s1)) (trace b)"
    by (metis append_take_drop_id)
  then show "\<exists>mid. trace b = trace s @ [SetHttpStatus t (statusCode res)] @ mid"
    by (simp add: s1) (metis append.assoc)
  from u have "immediates (until_check ph s1) = immediates s @ [FinishCb t (Suc ?P)]"
    by (simp add: runs_to_def s1)
  then show "check_phase (until_check ph s1) = drain (run_task (FinishCb t (Suc ?P)) b)"
    by (simp add: check_phase_def run_callbacks_append b_def)
qed

lemma after_check:
  fixes b :: "('a, 'w) state" and t :: Transaction
  assumes "calm P b" and "quiet b" and "length (promises b) = Suc (Suc P)"
  defines "e \<equiv> b\<lparr>trace := trace b @ [Finish t], microtasks := [],
             promises := (promises b)[Suc P := Fulfilled, P := Fulfilled]\<rparr>"
  shows "promises (timers_phase e) ! P = Fulfilled"
    and "\<exists>rest. trace (timers_phase e) = trace b @ [Finish t] @ rest"
    and "timers b = [] \<Longrightarrow> timers_phase e = e"
proof -
  from assms(1,2) have c: "calm P e" and q: "quiet e"
    by (simp_all add: e_def calm_def below_def quiet_def)
  from phases_later(1) [OF c q] have l: "runs_to P e (timers_phase e)" by simp
  then have "drop P (promises (timers_phase e)) = drop P (promises e)"
    by (simp add: runs_to_def)
  then have "drop P (promises (timers_phase e)) ! 0 = drop P (promises e) ! 0"
    by simp
  moreover from l have "length (drop P (promises (timers_phase e))) = length (drop P (promises e))"
    by (simp add: runs_to_def)
  ultimately show "promises (timers_phase e) ! P = Fulfilled"
    using assms(3) by (simp add: e_def)
  from l have "take (length (trace e)) (trace (timers_phase e)) = trace e"
    by (simp add: runs_to_def)
  then have "trace (timers_phase e) = trace e @ drop (length (trace e)) (trace (timers_phase e))"
    by (metis append_take_drop_id)
  then show "\<exists>rest. trace (timers_phase e) = trace b @ [Finish t] @ rest"
    by (simp add: e_def) (metis append.assoc)
  show "timers b = [] \<Longrightarrow> timers_phase e = e"
    by (simp add: timers_phase_def e_def)
qed

lemmas run_simps = autoEndTransactionOnResponseEnd_def fill_def wrapEndMethod_def response_def
  idle_def busy_def timer_due_def native_end_def finishTransaction_present
  finishTransaction_absent event_loop_def until_check_def check_phase_def timers_phase_def
  poll_phase_def rest_of_batch_def drain.simps resolve_def emit_def Let_def

lemma wf_idle: "wf_state idle"
  by (simp add: wf_state_def idle_def)





text \<open>
  Claim C6. For a present tracing handle, \<^verbatim>\<open>finishTransaction\<close> calls
  \<^verbatim>\<open>setHttpStatus\<close> with the status code of the response before it returns, and the
  \<^verbatim>\<open>finish\<close> of this call is recorded later, when the event loop runs the check phase: the
  status call comes strictly first, from whichever phase the call is made. With status
  code 404 the trace reads \<^verbatim>\<open>setHttpStatus(404)\<close>, then \<^verbatim>\<open>finish()\<close>.
\<close>

theorem status_recorded_before_finish:
  assumes "wf_state s"
  shows "trace (snd (finishTransaction (Some t) res s)) =
           trace s @ [SetHttpStatus t (statusCode res)]
         \<and> (\<exists>mid. trace (check_phase (until_check ph (snd (finishTransaction (Some t) res s)))) =
               trace s @ [SetHttpStatus t (statusCode res)] @ mid @ [Finish t])
         \<and> (\<exists>mid after. trace (event_loop ph (snd (finishTransaction (Some t) res s))) =
               trace s @ [SetHttpStatus t (statusCode res)] @ mid @ [Finish t] @ after
               \<and> (if ph = Poll \<and> timers s \<noteq> [] then True else after = []))"
proof -
  let ?P = "length (promises s)"
  define s1 where "s1 = snd (finishTransaction (Some t) res s)"
  define b where "b = run_callbacks (immediates s) ((until_check ph s1)\<lparr>immediates := []\<rparr>)"
  define e where "e = b\<lparr>trace := trace b @ [Finish t], microtasks := [],
             promises := (promises b)[Suc ?P := Fulfilled, ?P := Fulfilled]\<rparr>"
  note qf = queued_first [OF assms, where t = t and res = res and ph = ph,
      folded s1_def, folded b_def]
  note ps = promise_slots [OF qf(2)]
  note cb = finish_callback_runs [OF qf(1) qf(2), where t = t, folded e_def]
  note ac = after_check [OF qf(5) qf(1) ps(1), where t = t, folded e_def]
  from qf(3) obtain mid where mid: "trace b = trace s @ [SetHttpStatus t (statusCode res)] @ mid"
    by blast
  have chk: "check_phase (until_check ph s1) = e"
    by (simp add: qf(4) cb(2) del: run_task.simps)
  have f: "trace e = trace s @ [SetHttpStatus t (statusCode res)] @ mid @ [Finish t]"
    by (simp add: e_def mid)
  have loop: "event_loop ph s1 = (case ph of Poll \<Rightarrow> timers_phase e | other \<Rightarrow> e)"
    unfolding event_loop_def chk by (cases ph) simp_all
  have lp: "ph = Poll \<Longrightarrow> event_loop ph s1 = timers_phase e"
    and ln: "ph \<noteq> Poll \<Longrightarrow> event_loop ph s1 = e"
    unfolding loop by (cases ph; simp)+
  have "\<exists>after. trace (event_loop ph s1) =
          trace s @ [SetHttpStatus t (statusCode res)] @ mid @ [Finish t] @ after
          \<and> (if ph = Poll \<and> timers s \<noteq> [] then True else after = [])"
  proof (cases "ph = Poll")
    case False
    with f ln show ?thesis by simp
  next
    case True
    show ?thesis
    proof (cases "timers s = []")
      case False
      from ac(2) obtain after where "trace (timers_phase e) = trace b @ [Finish t] @ after"
        by blast
      with True False mid lp show ?thesis by simp
    next
      case empty: True
      have s1: "s1 = s\<lparr>trace := trace s @ [SetHttpStatus t (statusCode res)],
          immediates := immediates s @ [FinishCb t (Suc ?P)],
          promises := promises s @ [Pending [], Pending [AwaitCont ?P]]\<rparr>"
        by (simp add: s1_def finishTransaction_present)
      have "timers b = []"
        using empty True
        by (simp add: b_def until_check_def poll_phase_def s1 timers_run_callbacks timers_drain)
      from ac(3) [OF this] True f lp show ?thesis by simp
    qed
  qed
  then obtain after where A: "trace (event_loop ph s1) =
          trace s @ [SetHttpStatus t (statusCode res)] @ mid @ [Finish t] @ after"
    and B: "if ph = Poll \<and> timers s \<noteq> [] then True else after = []"
    by blast
  have C: "trace s1 = trace s @ [SetHttpStatus t (statusCode res)]"
    by (simp add: s1_def finishTransaction_present)
  have D: "trace (check_phase (until_check ph s1)) =
      trace s @ [SetHttpStatus t (statusCode res)] @ mid @ [Finish t]"
    by (simp only: chk f)
  from A B C D show ?thesis
    unfolding s1_def [symmetric] by blast
qed

theorem status_recorded_before_finish_witness:
  "wf_state idle
   \<and> trace (snd (finishTransaction (Some 1) (response 404) idle)) = [SetHttpStatus 1 404]
   \<and> trace (event_loop Poll (snd (finishTransaction (Some 1) (response 404) idle)))
     = [SetHttpStatus 1 404, Finish 1]"
  using status_recorded_before_finish
    [OF wf_idle, where t = 1 and res = "response 404" and ph = Poll] wf_idle
  by (simp add: run_simps)

section \<open>\<^verbatim>\<open>sentryWrappedEnd\<close> and \<^verbatim>\<open>autoEndTransactionOnResponseEnd\<close>\<close>

lemma sentryWrappedEnd_call:
  "call_fn (SentryWrappedEnd transaction origEnd m) this args s =
     call_fn origEnd this args (snd (finishTransaction transaction this s))"
  by (simp add: split_beta)

text \<open>A call returns what the native code at its core returns, changes the world as that
  code does, records exactly \<open>sync_events\<close>, runs no microtask, and only adds to the
  \<^verbatim>\<open>setImmediate\<close> queue and to the promise store.\<close>

lemma call_fn_sync:
  "fst (call_fn f this args s) = fst (innermost f args (world s))
   \<and> world (snd (call_fn f this args s)) = snd (innermost f args (world s))
   \<and> trace (snd (call_fn f this args s)) = trace s @ sync_events f this args
   \<and> microtasks (snd (call_fn f this args s)) = microtasks s
   \<and> (\<exists>q. immediates (snd (call_fn f this args s)) = immediates s @ q)
   \<and> take (length (promises s)) (promises (snd (call_fn f this args s))) = promises s
   \<and> length (promises s) \<le> length (promises (snd (call_fn f this args s)))"
proof (induction f arbitrary: s)
  case (Native code m)
  show ?case by (simp add: split_beta)
next
  case (SentryWrappedEnd transaction origEnd m)
  let ?a = "snd (finishTransaction transaction this s)"
  note ft = finishTransaction_frame [where transaction = transaction and res = this and s = s]
  note ih = SentryWrappedEnd.IH [of ?a]
  have "take (length (promises s)) (promises (snd (call_fn origEnd this args ?a))) =
      take (length (promises s))
        (take (length (promises ?a)) (promises (snd (call_fn origEnd this args ?a))))"
    using ft(5) by (simp add: min_def)
  also have "\<dots> = promises s"
    using ih ft(4) by simp
  finally have p:
    "take (length (promises s)) (promises (snd (call_fn origEnd this args ?a))) = promises s" .
  have i: "\<exists>q. immediates (snd (call_fn origEnd this args ?a)) = immediates s @ q"
    using ih ft(6) by auto
  from ih ft(1,2,3) p i ft(5) show ?case
    unfolding sentryWrappedEnd_call by auto
qed

text \<open>
  Claim C2, as the specification states it: when the wrapped \<^verbatim>\<open>end\<close> is invoked, the
  tracing handle is completed with the status code and telemetry is flushed, all before the
  original \<^verbatim>\<open>end\<close> runs. The doc comment of \<^verbatim>\<open>autoEndTransactionOnResponseEnd\<close> says the
  same (``closes the transaction and flushes events before letting the request finish'').
  The code does otherwise. On a response with status 200, the function that
  \<^verbatim>\<open>wrapEndMethod\<close> builds for transaction 1 around the native \<^verbatim>\<open>end\<close>, called with one
  argument, returns having set the status and run the original \<^verbatim>\<open>end\<close>, with the callback
  that finishes the transaction still queued; \<^verbatim>\<open>finish\<close> is recorded after the original
  \<^verbatim>\<open>end\<close>, and no \<^verbatim>\<open>flush\<close> is recorded at all.
\<close>

theorem wrapped_end_finishes_after_original:
  "call_fn (wrapEndMethod (Some 1) (res_end (response 200))) (response 200) [''bye''] idle
    = (Returns True,
       \<lparr>world = 1, trace = [SetHttpStatus 1 200, OrigEnd [''bye'']], ticks = [],
        microtasks = [], timers = [], io = [], outstanding = [],
        immediates = [FinishCb 1 1], promises = [Pending [], Pending [AwaitCont 0]]\<rparr>)
   \<and> trace (event_loop Poll (snd (call_fn (wrapEndMethod (Some 1) (res_end (response 200)))
        (response 200) [''bye''] idle)))
    = [SetHttpStatus 1 200, OrigEnd [''bye''], Finish 1]
   \<and> trace (event_loop Timers (snd (call_fn (wrapEndMethod (Some 1) (res_end (response 200)))
        (response 200) [''bye''] idle)))
    = [SetHttpStatus 1 200, OrigEnd [''bye''], Finish 1]
   \<and> trace (event_loop Check (snd (call_fn (wrapEndMethod (Some 1) (res_end (response 200)))
        (response 200) [''bye''] idle)))
    = [SetHttpStatus 1 200, OrigEnd [''bye''], Finish 1]"
  by (simp add: run_simps)

lemma marked_after_wrap:
  "sentry_original (res_end (autoEndTransactionOnResponseEnd transaction res))"
  by (simp add: autoEndTransactionOnResponseEnd_def fill_def wrapEndMethod_def)

lemma wrap_many_noop:
  "sentry_original (res_end res) \<Longrightarrow>
   foldl (\<lambda>r t. autoEndTransactionOnResponseEnd t r) res ts = res"
  by (induction ts) (simp_all add: autoEndTransactionOnResponseEnd_def)

text \<open>
  Claim C3. After one call of \<^verbatim>\<open>autoEndTransactionOnResponseEnd\<close> the function in
  \<^verbatim>\<open>res.end\<close> carries the marker; any further calls, with whatever transactions, leave the
  response as the first call left it; and the first call itself puts exactly one
  \<^verbatim>\<open>sentryWrappedEnd\<close> around the function it found, or nothing when that function was
  already marked.
\<close>

theorem autoEnd_wraps_at_most_once:
  "sentry_original (res_end (autoEndTransactionOnResponseEnd transaction res))
   \<and> foldl (\<lambda>r t. autoEndTransactionOnResponseEnd t r)
        (autoEndTransactionOnResponseEnd transaction res) later
     = autoEndTransactionOnResponseEnd transaction res
   \<and> res_end (autoEndTransactionOnResponseEnd transaction res)
     = (if sentry_original (res_end res) then res_end res
        else SentryWrappedEnd transaction (res_end res) True)"
proof (intro conjI)
  show "sentry_original (res_end (autoEndTransactionOnResponseEnd transaction res))"
    by (rule marked_after_wrap)
  then show "foldl (\<lambda>r t. autoEndTransactionOnResponseEnd t r)
        (autoEndTransactionOnResponseEnd transaction res) later
     = autoEndTransactionOnResponseEnd transaction res"
    by (rule wrap_many_noop)
  show "res_end (autoEndTransactionOnResponseEnd transaction res)
     = (if sentry_original (res_end res) then res_end res
        else SentryWrappedEnd transaction (res_end res) True)"
    by (simp add: autoEndTransactionOnResponseEnd_def fill_def wrapEndMethod_def)
qed

text \<open>
  Claim C4, as the specification states it, has the wrapped \<^verbatim>\<open>end\<close> perform the same
  synchronous side effects as the original and add a background effect only. With a
  tracing handle the wrapped \<^verbatim>\<open>end\<close> also calls \<^verbatim>\<open>setHttpStatus\<close>, synchronously and before
  the original runs: the two calls do not record the same.
\<close>

theorem wrapped_end_adds_status_call:
  "trace (snd (call_fn (res_end (response 200)) (response 200) [''bye''] idle))
     = [OrigEnd [''bye'']]
   \<and> trace (snd (call_fn (wrapEndMethod (Some 1) (res_end (response 200)))
        (response 200) [''bye''] idle))
     = [SetHttpStatus 1 200, OrigEnd [''bye'']]"
  by (simp add: run_simps)

text \<open>
  Claim C4, amended. Called with the same receiver and arguments in the same state, the
  wrapped \<^verbatim>\<open>end\<close> completes as the original does (the same returned value, or the same
  thrown one), leaves the world as the original leaves it, and records what the original
  records. What it adds is what \<^verbatim>\<open>finishTransaction\<close> does: the status call in front and,
  in the background, the queued completion. Around a native \<^verbatim>\<open>end\<close> the final state is the
  state that \<^verbatim>\<open>finishTransaction\<close> leaves, with the world and the event of the original
  call.
\<close>

theorem wrapped_end_preserves_original:
  "fst (call_fn (SentryWrappedEnd transaction origEnd m) this args s)
     = fst (call_fn origEnd this args s)
   \<and> world (snd (call_fn (SentryWrappedEnd transaction origEnd m) this args s))
     = world (snd (call_fn origEnd this args s))
   \<and> trace (snd (call_fn (SentryWrappedEnd transaction origEnd m) this args s))
     = trace s @ status_call transaction this
         @ drop (length (trace s)) (trace (snd (call_fn origEnd this args s)))
   \<and> microtasks (snd (call_fn (SentryWrappedEnd transaction origEnd m) this args s))
     = microtasks (snd (call_fn origEnd this args s))
   \<and> snd (call_fn (SentryWrappedEnd transaction (Native code m') m) this args s)
     = (snd (finishTransaction transaction this s))
         \<lparr>world := world (snd (call_fn (Native code m') this args s)),
          trace := trace s @ status_call transaction this @ [OrigEnd args]\<rparr>"
proof -
  have "snd (call_fn (SentryWrappedEnd transaction (Native code m') m) this args s)
     = (snd (finishTransaction transaction this s))
         \<lparr>world := world (snd (call_fn (Native code m') this args s)),
          trace := trace s @ status_call transaction this @ [OrigEnd args]\<rparr>"
    by (cases transaction)
       (simp_all add: finishTransaction_present finishTransaction_absent status_call_def
          split_beta emit_def)
  with call_fn_sync [of "SentryWrappedEnd transaction origEnd m" this args s]
    call_fn_sync [of origEnd this args s]
  show ?thesis by simp
qed

text \<open>
  Claim C5, as the specification states it: the replacement starts the finish-and-flush
  sequence without waiting for it, then calls the original \<^verbatim>\<open>end\<close> and returns its result.
  The doc comment of \<^verbatim>\<open>autoEndTransactionOnResponseEnd\<close> has the wrapped \<^verbatim>\<open>end\<close> flush
  events as well. The code starts \<^verbatim>\<open>finishTransaction\<close> only. On a response with status
  200, the function that \<^verbatim>\<open>wrapEndMethod\<close> builds for transaction 1 around the native
  \<^verbatim>\<open>end\<close> returns the result of the original at once, and, run to the end of the event
  loop, has recorded the status, the original \<^verbatim>\<open>end\<close> and \<^verbatim>\<open>finish\<close>, and no call of
  \<^verbatim>\<open>flush\<close>.
\<close>

theorem wrapped_end_never_flushes:
  "fst (call_fn (wrapEndMethod (Some 1) (res_end (response 200))) (response 200) [] idle)
     = Returns True
   \<and> trace (event_loop Poll (snd (call_fn (wrapEndMethod (Some 1) (res_end (response 200)))
        (response 200) [] idle)))
     = [SetHttpStatus 1 200, OrigEnd [], Finish 1]
   \<and> filter is_flush
        (trace (event_loop Poll (snd (call_fn (wrapEndMethod (Some 1) (res_end (response 200)))
           (response 200) [] idle)))) = []"
  by (simp add: run_simps)

text \<open>
  Claim C8. With no tracing handle, \<^verbatim>\<open>finishTransaction\<close> returns a promise that is
  already fulfilled and changes nothing else: no call is recorded and nothing is queued.
  The wrapped \<^verbatim>\<open>end\<close> is then the original \<^verbatim>\<open>end\<close> run in a state that differs by that one
  settled promise: it completes as the original does, so it throws only what the original
  throws, and its trace is the trace of the original, so the wrapper records neither
  \<^verbatim>\<open>setHttpStatus\<close> nor \<^verbatim>\<open>finish\<close>. Around a native \<^verbatim>\<open>end\<close> the two final states differ in
  the settled promise only.
\<close>

theorem absent_handle_is_no_op:
  "finishTransaction None res s
     = (length (promises s), s\<lparr>promises := promises s @ [Fulfilled]\<rparr>)
   \<and> call_fn (SentryWrappedEnd None origEnd m) this args s
     = call_fn origEnd this args (s\<lparr>promises := promises s @ [Fulfilled]\<rparr>)
   \<and> fst (call_fn (SentryWrappedEnd None origEnd m) this args s)
     = fst (call_fn origEnd this args s)
   \<and> trace (snd (call_fn (SentryWrappedEnd None origEnd m) this args s))
     = trace (snd (call_fn origEnd this args s))
   \<and> snd (call_fn (SentryWrappedEnd None (Native code m') m) this args s)
     = (snd (call_fn (Native code m') this args s))\<lparr>promises := promises s @ [Fulfilled]\<rparr>"
  using call_fn_sync [of "SentryWrappedEnd None origEnd m" this args s]
    call_fn_sync [of origEnd this args s]
  by (simp add: finishTransaction_absent status_call_def split_beta emit_def)

section \<open>\<^verbatim>\<open>flushQueue\<close>\<close>

lemma flushQueue_trace:
  "fst (flushQueue DEBUG_BUILD flush) =
     (if DEBUG_BUILD then [Log ''Flushing events...'' None] else []) @ [Flush 2000] @
     (if DEBUG_BUILD then
        [case flush 2000 of
           FlushResolves sent \<Rightarrow> Log ''Done flushing events'' None
         | FlushRejects e \<Rightarrow> Log (''Error while flushing events:'' @ [CHR 0x0A]) (Some e)
         | FlushThrows e \<Rightarrow> Log (''Error while flushing events:'' @ [CHR 0x0A]) (Some e)]
      else [])"
  by (cases "flush 2000")
     (simp_all add: flushQueue_def async_fn_def try_catch_def seq_def debug_log_def await_flush_def)

lemma flushQueue_outcome: "snd (flushQueue DEBUG_BUILD flush) = Resolved"
  by (cases "flush 2000")
     (simp_all add: flushQueue_def async_fn_def try_catch_def seq_def debug_log_def await_flush_def)

text \<open>
  Claim C7. Whatever \<^verbatim>\<open>flush\<close> does once called (its promise resolves, its promise
  rejects, or the call itself throws), the promise of \<^verbatim>\<open>flushQueue\<close> is resolved, never
  rejected. The failure is logged when the debug flag is on and nothing at all is logged
  when it is off.
\<close>

theorem flushQueue_always_resolves:
  "snd (flushQueue DEBUG_BUILD flush) = Resolved
   \<and> filter is_log (fst (flushQueue DEBUG_BUILD flush)) =
       (if DEBUG_BUILD then
          [Log ''Flushing events...'' None,
           case flush 2000 of
             FlushResolves sent \<Rightarrow> Log ''Done flushing events'' None
           | FlushRejects e \<Rightarrow> Log (''Error while flushing events:'' @ [CHR 0x0A]) (Some e)
           | FlushThrows e \<Rightarrow> Log (''Error while flushing events:'' @ [CHR 0x0A]) (Some e)]
        else [])"
  by (cases "flush 2000") (simp_all add: flushQueue_outcome flushQueue_trace)

theorem flushQueue_always_resolves_witness:
  "snd (flushQueue True (\<lambda>timeout. FlushRejects ''network down'') :: unit event list \<times> outcome)
     = Resolved
   \<and> filter is_log
        (fst (flushQueue True (\<lambda>timeout. FlushRejects ''network down'')
                :: unit event list \<times> outcome))
     = [Log ''Flushing events...'' None,
        Log (''Error while flushing events:'' @ [CHR 0x0A]) (Some ''network down'')]"
  using flushQueue_always_resolves
    [where ?'a = unit and DEBUG_BUILD = True
       and flush = "\<lambda>timeout. FlushRejects ''network down''"]
  by simp

text \<open>
  Claim C9. Every call of \<^verbatim>\<open>flushQueue\<close> calls \<^verbatim>\<open>flush\<close> exactly once, and the
  argument of that call is 2000.
\<close>

theorem flushQueue_flushes_once_with_2000:
  "filter is_flush (fst (flushQueue DEBUG_BUILD flush)) = [Flush 2000]"
  by (cases "flush 2000") (simp_all add: flushQueue_trace)

section \<open>The \<^verbatim>\<open>tsconfig.json\<close> rewrite\<close>

lemma keys_update_present:
  "map_of members k = Some v \<Longrightarrow> map fst (AList.update k v' members) = map fst members"
  by (induction members) (auto split: if_splits)

lemma keys_delete: "map fst (AList.delete k ps) = filter (\<lambda>k'. k' \<noteq> k) (map fst ps)"
  by (induction ps) auto

lemma keys_stringify [simp]: "keys (JSON_stringify v) = keys v"
  by (cases v) (simp_all add: comp_def split: number.splits)

lemma map_of_stringify:
  "map_of (map (map_prod id f) members) k = map_option f (map_of members k)"
  by (induction members) auto

lemma member_stringify [simp]:
  "member (JSON_stringify v) k = map_option JSON_stringify (member v k)"
  by (cases v) (simp_all add: map_of_stringify split: number.splits)

lemma is_object_stringify [simp]: "is_object (JSON_stringify v) = is_object v"
  by (cases v) (simp_all split: number.splits)

text \<open>A value without infinities and negative zero is written as it was loaded.\<close>

lemma plain_stringify: "plain v \<Longrightarrow> JSON_stringify v = v"
proof (induction v)
  case (JNum n)
  then show ?case by (cases n) simp_all
next
  case (JArr elements)
  then have "map JSON_stringify elements = elements"
    by (intro map_idI) (simp add: list_all_iff)
  then show ?case by simp
next
  case (JObj members)
  have "map (map_prod id JSON_stringify) members = members"
  proof (rule map_idI)
    fix m assume m: "m \<in> set members"
    with JObj.prems have "plain (snd m)" by (simp add: list_all_iff)
    with JObj.IH [OF m, of "snd m"] show "map_prod id JSON_stringify m = m"
      by (cases m) simp
  qed
  then show ?case by simp
qed simp_all

text \<open>What the deletion does to the loaded configuration.\<close>

lemma delete_option_frame:
  assumes "delete_option tsConfig = Inr deleted"
  shows "keys deleted = keys tsConfig
     \<and> (\<forall>k. k \<noteq> ''compilerOptions'' \<longrightarrow> member deleted k = member tsConfig k)
     \<and> (\<exists>old new.
           member tsConfig ''compilerOptions'' = Some old
         \<and> member deleted ''compilerOptions'' = Some new
         \<and> (if is_object old then is_object new else new = old)
         \<and> keys new = filter (\<lambda>k. k \<noteq> ''noUncheckedIndexedAccess'') (keys old)
         \<and> member new ''noUncheckedIndexedAccess'' = None
         \<and> (\<forall>k. k \<noteq> ''noUncheckedIndexedAccess'' \<longrightarrow> member new k = member old k))"
proof (cases tsConfig)
  case (JObj members)
  show ?thesis
  proof (cases "map_of members ''compilerOptions''")
    case None
    with JObj assms show ?thesis by (simp add: delete_option_def)
  next
    case (Some old)
    show ?thesis
    proof (cases old)
      case (JObj options)
      with Some \<open>tsConfig = JObj members\<close> assms
      have w: "deleted = JObj (AList.update ''compilerOptions''
                 (JObj (AList.delete ''noUncheckedIndexedAccess'' options)) members)"
        by (simp add: delete_option_def)
      show ?thesis
        using Some JObj \<open>tsConfig = JObj members\<close>
        by (simp add: w keys_update_present update_conv' delete_conv' keys_delete)
    qed (use Some \<open>tsConfig = JObj members\<close> assms in \<open>auto simp: delete_option_def\<close>)
  qed
qed (use assms in \<open>simp_all add: delete_option_def\<close>)

text \<open>
  Claim C10, as the specification states it, has every key and value other than the
  removed option unchanged in the written file. A number that loaded as an infinity is
  written as \<^verbatim>\<open>null\<close>: the member \<^verbatim>\<open>limit\<close> of the loaded configuration below is not the
  member \<^verbatim>\<open>limit\<close> of the written one.
\<close>

theorem use_ts_3_8_writes_infinity_as_null:
  "use_ts_3_8 tsconfig_overflow
     = Inr (JObj [(''compilerOptions'', JObj []), (''limit'', JNull)])
   \<and> member tsconfig_overflow ''limit'' = Some (JNum Infinity)
   \<and> member (JObj [(''compilerOptions'', JObj []), (''limit'', JNull)]) ''limit'' = Some JNull"
  by (simp add: use_ts_3_8_def delete_option_def tsconfig_overflow_def AList.delete_eq)

text \<open>
  Claim C10, amended. When the script gets as far as writing the file, the written
  configuration has the top-level keys of the loaded one, in the same order, and under
  every key but \<^verbatim>\<open>compilerOptions\<close> the loaded value as \<^verbatim>\<open>JSON.stringify\<close> writes it.
  Under \<^verbatim>\<open>compilerOptions\<close> it has the keys of the loaded options without
  \<^verbatim>\<open>noUncheckedIndexedAccess\<close>, in the same order and each with the loaded value as
  \<^verbatim>\<open>JSON.stringify\<close> writes it; options that are not an object are written likewise.
  \<^verbatim>\<open>JSON.stringify\<close> writes every value unchanged whose numbers are finite and not negative
  zero.
\<close>

theorem use_ts_3_8_removes_only_one_option:
  assumes "use_ts_3_8 tsConfig = Inr written"
  shows "keys written = keys tsConfig
     \<and> (\<forall>k. k \<noteq> ''compilerOptions'' \<longrightarrow>
           member written k = map_option JSON_stringify (member tsConfig k))
     \<and> (\<exists>old new.
           member tsConfig ''compilerOptions'' = Some old
         \<and> member written ''compilerOptions'' = Some new
         \<and> (if is_object old then is_object new else new = JSON_stringify old)
         \<and> keys new = filter (\<lambda>k. k \<noteq> ''noUncheckedIndexedAccess'') (keys old)
         \<and> member new ''noUncheckedIndexedAccess'' = None
         \<and> (\<forall>k. k \<noteq> ''noUncheckedIndexedAccess'' \<longrightarrow>
               member new k = map_option JSON_stringify (member old k)))
     \<and> (\<forall>v. plain v \<longrightarrow> JSON_stringify v = v)"
proof -
  from assms obtain deleted where d: "delete_option tsConfig = Inr deleted"
    and w: "written = JSON_stringify deleted"
    by (auto simp: use_ts_3_8_def split: sum.splits)
  from delete_option_frame [OF d] obtain old new where
    k: "keys deleted = keys tsConfig"
    and m: "\<forall>k. k \<noteq> ''compilerOptions'' \<longrightarrow> member deleted k = member tsConfig k"
    and o: "member tsConfig ''compilerOptions'' = Some old"
    and n: "member deleted ''compilerOptions'' = Some new"
    and i: "if is_object old then is_object new else new = old"
    and kn: "keys new = filter (\<lambda>k. k \<noteq> ''noUncheckedIndexedAccess'') (keys old)"
    and mn: "member new ''noUncheckedIndexedAccess'' = None"
    and mo: "\<forall>k. k \<noteq> ''noUncheckedIndexedAccess'' \<longrightarrow> member new k = member old k"
    by blast
  have "member written ''compilerOptions'' = Some (JSON_stringify new)"
    by (simp add: w n)
  moreover have "if is_object old then is_object (JSON_stringify new)
      else JSON_stringify new = JSON_stringify old"
    using i by (simp split: if_splits)
  moreover have "keys (JSON_stringify new)
      = filter (\<lambda>k. k \<noteq> ''noUncheckedIndexedAccess'') (keys old)"
    by (simp add: kn)
  moreover have "member (JSON_stringify new) ''noUncheckedIndexedAccess'' = None"
    by (simp add: mn)
  moreover have "\<forall>k. k \<noteq> ''noUncheckedIndexedAccess'' \<longrightarrow>
      member (JSON_stringify new) k = map_option JSON_stringify (member old k)"
    using mo by simp
  ultimately have "\<exists>old new.
           member tsConfig ''compilerOptions'' = Some old
         \<and> member written ''compilerOptions'' = Some new
         \<and> (if is_object old then is_object new else new = JSON_stringify old)
         \<and> keys new = filter (\<lambda>k. k \<noteq> ''noUncheckedIndexedAccess'') (keys old)
         \<and> member new ''noUncheckedIndexedAccess'' = None
         \<and> (\<forall>k. k \<noteq> ''noUncheckedIndexedAccess'' \<longrightarrow>
               member new k = map_option JSON_stringify (member old k))"
    using o by blast
  moreover have "keys written = keys tsConfig"
    by (simp add: w k)
  moreover have "\<forall>k. k \<noteq> ''compilerOptions'' \<longrightarrow>
           member written k = map_option JSON_stringify (member tsConfig k)"
    using m by (simp add: w)
  moreover have "\<forall>v. plain v \<longrightarrow> JSON_stringify v = v"
    by (simp add: plain_stringify)
  ultimately show ?thesis by blast
qed

lemma tsconfig_rewritten: "use_ts_3_8 tsconfig = Inr tsconfig_written"
  by (simp add: use_ts_3_8_def delete_option_def tsconfig_def tsconfig_written_def
      AList.delete_eq)

theorem use_ts_3_8_removes_only_one_option_witness:
  "use_ts_3_8 tsconfig = Inr tsconfig_written
   \<and> plain tsconfig
   \<and> keys tsconfig_written = keys tsconfig
   \<and> member tsconfig_written ''extends'' = member tsconfig ''extends''
   \<and> member tsconfig_written ''include'' = member tsconfig ''include''
   \<and> member tsconfig_written ''compilerOptions''
     = Some (JObj [(''strict'', JBool True), (''target'', JStr ''es2017'')])"
  using use_ts_3_8_removes_only_one_option [OF tsconfig_rewritten] tsconfig_rewritten
  by (simp add: tsconfig_def tsconfig_written_def)

end
